theory Spec2Isabelle
  imports Main "HOL-Library.Word"
begin

section \<open>Data model of source/Common/TcpServer.cpp\<close>

text \<open>
  The class \<^verbatim>\<open>ELITE::TcpServer\<close> is event driven: its member functions arm asynchronous
  operations on a Boost.Asio reactor and the reactor later calls the completion handlers
  (\<^verbatim>\<open>accept_cb\<close>, \<^verbatim>\<open>read_cb\<close>) on the single engine thread. The embedding keeps the handlers
  as functions on an explicit state. The state holds the members of the class, the heap of
  socket objects the shared pointers refer to (a socket is named by its identity, so the
  slot and a read handler may alias one socket), the operations currently armed on the
  reactor, and the trace of externally visible actions in program order.

  A name may not end in an underscore here, so the members \<^verbatim>\<open>socket_\<close>,
  \<^verbatim>\<open>read_buffer_\<close>, \<^verbatim>\<open>s_server_thread_\<close> and the others are written without it.

  What the operating system and the reactor decide (the error code of a completion, the
  bytes transferred, the outcome of each \<^verbatim>\<open>setsockopt\<close>) is an argument of the handler.
\<close>

type_synonym byte = "8 word"
type_synonym sock_id = nat

text \<open>\<^verbatim>\<open>boost::system::error_code\<close> by its value; \<^verbatim>\<open>!ec\<close> holds exactly for the value 0.\<close>

type_synonym error_code = int

definition failed :: "error_code \<Rightarrow> bool" where
  "failed ec = (ec \<noteq> 0)"

text \<open>
  Ways a call leaves abnormally: the exception of the constructor, the
  \<^verbatim>\<open>boost::system::system_error\<close> thrown by the overloads of Asio that take no
  \<^verbatim>\<open>error_code\<close>, the \<^verbatim>\<open>std::length_error\<close> of a vector of negative size, and the
  dereference of a null smart pointer (undefined behaviour, in practice a crash).
\<close>

datatype fault =
    TCP_SERVER_CONTEXT_NULL
  | SystemError error_code
  | LengthError
  | NullDereference string

datatype sock_opt = reuse_address | no_delay | keep_alive | TCP_QUICKACK | SO_PRIORITY

text \<open>The outcome the operating system gives each of the five option calls of \<^verbatim>\<open>accept_cb\<close>.\<close>

record option_results =
  reuse_address_ec :: error_code
  no_delay_ec :: error_code
  keep_alive_ec :: error_code
  quickack_ec :: error_code
  priority_ec :: error_code

text \<open>The outcome of the three calls of \<^verbatim>\<open>closeSocket\<close>.\<close>

record close_results =
  cancel_ec :: error_code
  shutdown_ec :: error_code
  close_ec :: error_code

text \<open>The four log lines of the file, with the socket they describe and the error codes they print.\<close>

datatype log_msg =
    NewConnectionCloseOld sock_id error_code
  | AcceptClient sock_id error_code
  | AcceptFailCloseOld sock_id error_code error_code
  | CloseClient sock_id error_code error_code

datatype action =
    Cancel sock_id
  | ShutdownBoth sock_id
  | Close sock_id
  | AcceptorCancel
  | AcceptorClose
  | SetOption sock_id sock_opt
  | AsyncAccept sock_id
  | AsyncRead sock_id nat
  | ReceiveCb "byte list"
  | Write sock_id "byte list" int
  | LogInfo log_msg
  | LogError log_msg

record tcp_server =
  read_buffer :: "byte list"
  acceptor :: "bool option"
  socket :: "sock_id option"
  receive_cb :: bool
  alive :: bool
  sock_open :: "sock_id set"
  next_sock :: sock_id
  accepts_armed :: "sock_id list"
  reads_armed :: "sock_id list"
  trace :: "action list"
  linux :: bool

text \<open>
  \<^item> \<open>acceptor\<close>: the \<^verbatim>\<open>unique_ptr\<close> to the listener, \<open>Some b\<close> with \<open>b\<close> its \<^verbatim>\<open>is_open()\<close>;
  \<^item> \<open>socket\<close>: the Connection Slot, a shared pointer to a socket or null;
  \<^item> \<open>receive_cb\<close>: whether the \<^verbatim>\<open>std::function\<close> holds a callable;
  \<^item> \<open>alive\<close>: whether \<^verbatim>\<open>weak_self.lock()\<close> still yields the object;
  \<^item> \<open>sock_open\<close>: the socket objects whose \<^verbatim>\<open>is_open()\<close> is true;
  \<^item> \<open>next_sock\<close>: the identity the next \<^verbatim>\<open>make_shared<socket>\<close> gets;
  \<^item> \<open>accepts_armed\<close>: the \<^verbatim>\<open>new_socket\<close> of every armed \<^verbatim>\<open>async_accept\<close>, oldest first
    (the listener completes them in the order they were armed);
  \<^item> \<open>reads_armed\<close>: the sockets with an armed \<^verbatim>\<open>async_read\<close>;
  \<^item> \<open>linux\<close>: whether the file was compiled with \<^verbatim>\<open>__linux__\<close> defined.
\<close>

subsection \<open>The process-wide engine (the three static members)\<close>

record thread =
  tid :: nat
  joinable :: bool

record io_context =
  stopped :: bool

record engine =
  s_server_thread :: "thread option"
  s_work_guard_ptr :: "bool option"
  s_io_context_ptr :: "io_context option"
  os_threads :: "nat list"
  threads_created :: nat
  fifo_requests :: "nat list"

text \<open>
  \<open>s_work_guard_ptr\<close> is \<open>Some b\<close> with \<open>b\<close> whether the guard still owns work;
  \<open>os_threads\<close> lists the operating-system threads that were spawned and not yet joined,
  \<open>threads_created\<close> counts every thread ever spawned, \<open>fifo_requests\<close> the threads for
  which \<^verbatim>\<open>setThreadFiFoScheduling\<close> was called (its result is discarded by the code).
\<close>

definition engine_init :: engine where
  "engine_init = \<lparr>s_server_thread = None, s_work_guard_ptr = None, s_io_context_ptr = None,
     os_threads = [], threads_created = 0, fifo_requests = []\<rparr>"

text \<open>
  \<^verbatim>\<open>TcpServer::start\<close>, lines 125-148. The body of the spawned thread restarts a stopped
  context before it runs it; that effect is written into the context here.
\<close>

definition start :: "engine \<Rightarrow> engine" where
  "start e =
     (if s_server_thread e \<noteq> None then e
      else
        let ctx = (case s_io_context_ptr e of None \<Rightarrow> \<lparr>stopped = False\<rparr> | Some c \<Rightarrow> c);
            t = threads_created e
        in e\<lparr>s_io_context_ptr := Some (ctx\<lparr>stopped := False\<rparr>),
             s_work_guard_ptr := Some True,
             s_server_thread := Some \<lparr>tid = t, joinable = True\<rparr>,
             os_threads := os_threads e @ [t],
             threads_created := Suc t,
             fifo_requests := fifo_requests e @ [t]\<rparr>)"

text \<open>
  \<^verbatim>\<open>TcpServer::stop\<close>, lines 150-159. The first two statements call through
  \<^verbatim>\<open>s_work_guard_ptr_\<close> and \<^verbatim>\<open>s_io_context_ptr_\<close> with no null test.
\<close>

definition stop :: "engine \<Rightarrow> fault + engine" where
  "stop e =
     (case s_work_guard_ptr e of
        None \<Rightarrow> Inl (NullDereference ''s_work_guard_ptr_'')
      | Some g \<Rightarrow>
          (case s_io_context_ptr e of
             None \<Rightarrow> Inl (NullDereference ''s_io_context_ptr_'')
           | Some c \<Rightarrow>
               let e1 = (case s_server_thread e of
                           Some t \<Rightarrow> if joinable t then e\<lparr>os_threads := removeAll (tid t) (os_threads e)\<rparr> else e
                         | None \<Rightarrow> e)
               in Inr (e1\<lparr>s_work_guard_ptr := None, s_server_thread := None, s_io_context_ptr := None\<rparr>)))"

subsection \<open>Construction, teardown, configuration\<close>

text \<open>
  The constructor, lines 9-18: the member initialiser builds the buffer first, then the body
  tests the static context, then the listener is bound and put to listen (both throw on
  failure; their outcomes are arguments).
\<close>

definition TcpServer :: "engine \<Rightarrow> bool \<Rightarrow> int \<Rightarrow> int \<Rightarrow> error_code \<Rightarrow> error_code \<Rightarrow> fault + tcp_server" where
  "TcpServer eng on_linux port recv_buf_size bind_ec listen_ec =
     (if recv_buf_size < 0 then Inl LengthError
      else if s_io_context_ptr eng = None then Inl TCP_SERVER_CONTEXT_NULL
      else if failed bind_ec then Inl (SystemError bind_ec)
      else if failed listen_ec then Inl (SystemError listen_ec)
      else Inr \<lparr>read_buffer = replicate (nat recv_buf_size) 0, acceptor = Some True,
                socket = None, receive_cb = False, alive = True, sock_open = {},
                next_sock = 0, accepts_armed = [], reads_armed = [], trace = [],
                linux = on_linux\<rparr>)"

definition setReceiveCallback :: "bool \<Rightarrow> tcp_server \<Rightarrow> tcp_server" where
  "setReceiveCallback cb s = s\<lparr>receive_cb := cb\<rparr>"

text \<open>
  \<^verbatim>\<open>closeSocket\<close>, lines 182-188. Each of the three calls overwrites \<^verbatim>\<open>ec\<close>, so the caller
  sees the outcome of \<^verbatim>\<open>close\<close>; the socket is closed whatever the three outcomes are.
\<close>

definition closeSocket :: "sock_id \<Rightarrow> close_results \<Rightarrow> error_code \<Rightarrow> tcp_server \<Rightarrow> error_code \<times> tcp_server" where
  "closeSocket sock crs ec s =
     (if sock \<in> sock_open s
      then (close_ec crs,
            s\<lparr>sock_open := sock_open s - {sock},
              trace := trace s @ [Cancel sock, ShutdownBoth sock, Close sock]\<rparr>)
      else (ec, s))"

text \<open>The destructor, lines 20-33.\<close>

definition destroy :: "close_results \<Rightarrow> tcp_server \<Rightarrow> tcp_server" where
  "destroy crs s =
     (let s1 = (case acceptor s of
                  Some True \<Rightarrow> s\<lparr>acceptor := None, trace := trace s @ [AcceptorCancel, AcceptorClose]\<rparr>
                | _ \<Rightarrow> s);
          s2 = (case socket s1 of
                  Some k \<Rightarrow> (snd (closeSocket k crs 0 s1))\<lparr>socket := None\<rparr>
                | None \<Rightarrow> s1)
      in s2\<lparr>alive := False\<rparr>)"

subsection \<open>The Read Loop\<close>

text \<open>
  \<^verbatim>\<open>doRead\<close>, lines 99-123, is the arming call of line 122: one \<^verbatim>\<open>async_read\<close> over the
  whole of \<^verbatim>\<open>read_buffer_\<close>. The handler \<^verbatim>\<open>read_cb\<close> it installs is the next definition.
\<close>

definition doRead :: "sock_id \<Rightarrow> tcp_server \<Rightarrow> tcp_server" where
  "doRead sock s =
     s\<lparr>reads_armed := reads_armed s @ [sock],
       trace := trace s @ [AsyncRead sock (length (read_buffer s))]\<rparr>"

definition read_cb :: "sock_id \<Rightarrow> error_code \<Rightarrow> nat \<Rightarrow> close_results \<Rightarrow> tcp_server \<Rightarrow> tcp_server" where
  "read_cb sock ec n crs s =
     (if alive s then
        (if \<not> failed ec then
           doRead sock
             (if receive_cb s
              then s\<lparr>trace := trace s @ [ReceiveCb (take n (read_buffer s))]\<rparr>
              else s)
         else if sock \<in> sock_open s then
           (case closeSocket sock crs 0 s of
              (ignore_ec, s1) \<Rightarrow> s1\<lparr>trace := trace s1 @ [LogInfo (CloseClient sock ignore_ec ec)]\<rparr>)
         else s)
      else s)"

text \<open>
  The reactor completing an armed read: the operation leaves the armed set, the bytes it
  transferred are in the front of the buffer, and the handler runs with their count.
\<close>

definition complete_read :: "sock_id \<Rightarrow> error_code \<Rightarrow> byte list \<Rightarrow> close_results \<Rightarrow> tcp_server \<Rightarrow> tcp_server" where
  "complete_read sock ec data crs s =
     (if sock \<in> set (reads_armed s) then
        read_cb sock ec (min (length data) (length (read_buffer s))) crs
          (s\<lparr>reads_armed := remove1 sock (reads_armed s),
             read_buffer := take (length (read_buffer s)) (data @ drop (length data) (read_buffer s))\<rparr>)
      else s)"

subsection \<open>The Acceptor Loop\<close>

text \<open>
  \<^verbatim>\<open>doAccept\<close>, lines 39-97: a fresh socket object and one more armed \<^verbatim>\<open>async_accept\<close>
  into it. Nothing tests whether an accept is armed already, so every call adds one.
\<close>

definition doAccept :: "tcp_server \<Rightarrow> tcp_server" where
  "doAccept s =
     (if acceptor s = None then s
      else s\<lparr>accepts_armed := accepts_armed s @ [next_sock s],
             next_sock := Suc (next_sock s),
             trace := trace s @ [AsyncAccept (next_sock s)]\<rparr>)"

definition startListen :: "tcp_server \<Rightarrow> tcp_server" where
  "startListen s = doAccept s"

text \<open>
  The two overloads of \<^verbatim>\<open>basic_socket::set_option\<close>: with an \<^verbatim>\<open>error_code\<close> argument the
  outcome is stored in it (lines 62-64); without one a failure is thrown as
  \<^verbatim>\<open>boost::system::system_error\<close> (lines 66-67).
\<close>

definition set_option_ec :: "sock_id \<Rightarrow> sock_opt \<Rightarrow> error_code \<Rightarrow> tcp_server \<Rightarrow> error_code \<times> tcp_server" where
  "set_option_ec sock opt r s = (r, s\<lparr>trace := trace s @ [SetOption sock opt]\<rparr>)"

definition set_option_throwing :: "sock_id \<Rightarrow> sock_opt \<Rightarrow> error_code \<Rightarrow> tcp_server \<Rightarrow> (fault \<times> tcp_server) + tcp_server" where
  "set_option_throwing sock opt r s =
     (let s' = s\<lparr>trace := trace s @ [SetOption sock opt]\<rparr>
      in if failed r then Inl (SystemError r, s') else Inr s')"

text \<open>
  \<^verbatim>\<open>accept_cb\<close>, lines 47-94. An exception leaves the handler with the state reached at the
  throw: \<open>Inl (fault, state)\<close>.
\<close>

definition accept_cb :: "sock_id \<Rightarrow> error_code \<Rightarrow> option_results \<Rightarrow> close_results \<Rightarrow> tcp_server \<Rightarrow> (fault \<times> tcp_server) + tcp_server" where
  "accept_cb new_socket ec ors crs s =
     (if alive s then
        (if \<not> failed ec then
           (let s1 = (case socket s of
                        Some old \<Rightarrow>
                          if old \<in> sock_open s
                          then (case closeSocket old crs 0 s of
                                  (ignore_ec, s') \<Rightarrow>
                                    s'\<lparr>trace := trace s' @ [LogInfo (NewConnectionCloseOld old ignore_ec)]\<rparr>)
                          else s
                      | None \<Rightarrow> s);
                s2 = snd (set_option_ec new_socket reuse_address (reuse_address_ec ors) s1);
                s3 = snd (set_option_ec new_socket no_delay (no_delay_ec ors) s2);
                s4 = snd (set_option_ec new_socket keep_alive (keep_alive_ec ors) s3)
            in case (if linux s4
                     then (case set_option_throwing new_socket TCP_QUICKACK (quickack_ec ors) s4 of
                             Inl f \<Rightarrow> Inl f
                           | Inr s5 \<Rightarrow> set_option_throwing new_socket SO_PRIORITY (priority_ec ors) s5)
                     else Inr s4) of
                 Inl f \<Rightarrow> Inl f
               | Inr s6 \<Rightarrow>
                   (let s7 = s6\<lparr>socket := Some new_socket\<rparr>;
                        s8 = s7\<lparr>trace := trace s7 @ [LogInfo (AcceptClient new_socket ec)]\<rparr>;
                        s9 = doRead new_socket s8
                    in Inr (doAccept s9)))
         else
           (let s1 = (case socket s of
                        Some old \<Rightarrow>
                          if old \<in> sock_open s
                          then (case closeSocket old crs 0 s of
                                  (ignore_ec, s') \<Rightarrow>
                                    s'\<lparr>trace := trace s' @ [LogError (AcceptFailCloseOld old ec ignore_ec)]\<rparr>)
                          else s
                      | None \<Rightarrow> s);
                s2 = s1\<lparr>socket := None\<rparr>
            in Inr (doAccept s2)))
      else Inr s)"

text \<open>
  The accept handler object holds the only shared pointer to \<^verbatim>\<open>new_socket\<close> until line 70
  stores one in the slot and line 77 one in the read handler. When the handler object goes,
  after a normal return or while an exception unwinds, a socket that neither the slot nor
  an armed read refers to is destroyed, and its destructor closes the descriptor. That
  close is not a call of the endpoint's code and is not recorded in the trace.
\<close>

definition release :: "sock_id \<Rightarrow> tcp_server \<Rightarrow> tcp_server" where
  "release new_socket s =
     (if socket s = Some new_socket \<or> new_socket \<in> set (reads_armed s) then s
      else s\<lparr>sock_open := sock_open s - {new_socket}\<rparr>)"

text \<open>
  The reactor completing the oldest armed accept: on success the accepted connection has
  been assigned to \<^verbatim>\<open>new_socket\<close>, which is therefore open when the handler starts; the
  handler runs and is then destroyed.
\<close>

definition complete_accept :: "error_code \<Rightarrow> option_results \<Rightarrow> close_results \<Rightarrow> tcp_server \<Rightarrow> (fault \<times> tcp_server) + tcp_server" where
  "complete_accept ec ors crs s =
     (case accepts_armed s of
        [] \<Rightarrow> Inr s
      | new_socket # rest \<Rightarrow>
          (case accept_cb new_socket ec ors crs
                  (s\<lparr>accepts_armed := rest,
                     sock_open := (if failed ec then sock_open s
                                   else insert new_socket (sock_open s))\<rparr>) of
             Inl (f, s') \<Rightarrow> Inl (f, release new_socket s')
           | Inr s' \<Rightarrow> Inr (release new_socket s')))"

subsection \<open>Writer and status query\<close>

text \<open>
  \<^verbatim>\<open>writeClient\<close>, lines 161-172. \<^verbatim>\<open>boost::asio::write\<close> returns a \<^verbatim>\<open>std::size_t\<close> (64 bits)
  and an error code; the count is narrowed to the 32-bit \<^verbatim>\<open>int wb\<close>.
\<close>

definition writeClient :: "byte list \<Rightarrow> int \<Rightarrow> 64 word \<times> error_code \<Rightarrow> tcp_server \<Rightarrow> int \<times> tcp_server" where
  "writeClient data sz wr s =
     (case socket s of
        Some k \<Rightarrow>
          (let s' = s\<lparr>trace := trace s @ [Write k data sz]\<rparr>;
               wb = (ucast (fst wr) :: 32 word)
           in if sint wb < 0 \<or> failed (snd wr) then (- 1, s') else (sint wb, s'))
      | None \<Rightarrow> (- 1, s))"

definition isClientConnected :: "tcp_server \<Rightarrow> bool" where
  "isClientConnected s = (case socket s of Some k \<Rightarrow> k \<in> sock_open s | None \<Rightarrow> False)"

subsection \<open>Runs of the reactor\<close>

datatype event =
    AcceptDone error_code option_results close_results
  | ReadDone sock_id error_code "byte list" close_results
  | Destroyed close_results

fun step :: "event \<Rightarrow> tcp_server \<Rightarrow> (fault \<times> tcp_server) + tcp_server" where
  "step (AcceptDone ec ors crs) s = complete_accept ec ors crs s"
| "step (ReadDone sock ec data crs) s = Inr (complete_read sock ec data crs s)"
| "step (Destroyed crs) s = Inr (destroy crs s)"

text \<open>
  A run is a list of completions dispatched by the reactor, possibly with the destruction
  of the endpoint among them. An exception that leaves a handler leaves
  \<^verbatim>\<open>io_context::run\<close> and ends the engine thread (lines 135-143): no later completion is
  dispatched.
\<close>

fun run :: "event list \<Rightarrow> tcp_server \<Rightarrow> (fault \<times> tcp_server) + tcp_server" where
  "run [] s = Inr s"
| "run (ev # evs) s = (case step ev s of Inl f \<Rightarrow> Inl f | Inr s' \<Rightarrow> run evs s')"

text \<open>
  \<^verbatim>\<open>boost::asio::async_read\<close> with no completion condition (line 122) completes without
  error only when the whole buffer is filled; when the stream ends first it completes with
  the error and the count of the bytes that did arrive. \<open>inbound\<close> is what the peer sends
  on the connection before it ends with \<open>end_ec\<close>.
\<close>

definition async_read_completion :: "nat \<Rightarrow> byte list \<Rightarrow> error_code \<Rightarrow> error_code \<times> byte list \<times> byte list" where
  "async_read_completion cap inbound end_ec =
     (if cap \<le> length inbound then (0, take cap inbound, drop cap inbound)
      else (end_ec, inbound, []))"

text \<open>The Read Loop of one socket driven to its end by the bytes of one connection.\<close>

partial_function (option) serve_reads :: "sock_id \<Rightarrow> byte list \<Rightarrow> error_code \<Rightarrow> close_results \<Rightarrow> tcp_server \<Rightarrow> tcp_server option" where
  "serve_reads sock inbound end_ec crs s =
     (if sock \<in> set (reads_armed s) then
        (case async_read_completion (length (read_buffer s)) inbound end_ec of
           (ec, data, rest) \<Rightarrow> serve_reads sock rest end_ec crs (complete_read sock ec data crs s))
      else Some s)"

text \<open>The byte strings handed to the receive callback, in order.\<close>

fun deliveries :: "action list \<Rightarrow> byte list list" where
  "deliveries [] = []"
| "deliveries (ReceiveCb d # as) = d # deliveries as"
| "deliveries (a # as) = deliveries as"


subsection \<open>Notions the properties are stated with\<close>

text \<open>The state a run ends in, whether it ended normally or with an exception.\<close>

fun final :: "(fault \<times> tcp_server) + tcp_server \<Rightarrow> tcp_server" where
  "final (Inl (f, s)) = s"
| "final (Inr s) = s"

text \<open>How many times a read was armed on socket \<open>k\<close> so far.\<close>

fun is_read_of :: "sock_id \<Rightarrow> action \<Rightarrow> bool" where
  "is_read_of k (AsyncRead j n) = (j = k)"
| "is_read_of k a = False"

definition read_launches :: "sock_id \<Rightarrow> tcp_server \<Rightarrow> nat" where
  "read_launches k s = length (filter (is_read_of k) (trace s))"

text \<open>
  The invariant of the states between two handlers: no socket has two reads in flight;
  every socket named anywhere was allocated; the sockets of the armed accepts are fresh
  ones, pairwise different, neither read from nor in the slot; and while the endpoint
  lives its listener exists and no socket but the occupant of the slot is open.
\<close>

definition wf :: "tcp_server \<Rightarrow> bool" where
  "wf s \<longleftrightarrow>
     distinct (reads_armed s) \<and>
     (\<forall>k \<in> set (reads_armed s). k < next_sock s) \<and>
     (\<forall>k. socket s = Some k \<longrightarrow> k < next_sock s) \<and>
     distinct (accepts_armed s) \<and>
     (\<forall>a \<in> set (accepts_armed s).
        a < next_sock s \<and> a \<notin> set (reads_armed s) \<and> socket s \<noteq> Some a) \<and>
     (alive s \<longrightarrow> sock_open s \<subseteq> set_option (socket s) \<and> acceptor s \<noteq> None)"



definition connection_read_completion :: "bool \<Rightarrow> nat \<Rightarrow> byte list \<Rightarrow> error_code \<Rightarrow> error_code \<times> byte list \<times> byte list" where
  "connection_read_completion is_open cap inbound end_ec =
     (if is_open then async_read_completion cap inbound end_ec else (end_ec, [], inbound))"

fun serve_among :: "sock_id \<Rightarrow> byte list \<Rightarrow> error_code \<Rightarrow> close_results \<Rightarrow> event list list \<Rightarrow> tcp_server \<Rightarrow> byte list list" where
  "serve_among sock inbound end_ec crs [] s = []"
| "serve_among sock inbound end_ec crs (others # later) s =
     (case run others s of
        Inl fs \<Rightarrow> []
      | Inr s1 \<Rightarrow>
          if sock \<in> set (reads_armed s1) then
            (case connection_read_completion (sock \<in> sock_open s1) (length (read_buffer s1))
                    inbound end_ec of
               (ec, data, rest) \<Rightarrow>
                 deliveries (drop (length (trace s1)) (trace (complete_read sock ec data crs s1)))
                 @ serve_among sock rest end_ec crs later (complete_read sock ec data crs s1))
          else [])"

subsection \<open>Concrete states used to exercise the theorems\<close>

text \<open>
  \<open>listening\<close> is the endpoint right after construction on a 4-byte buffer, registration
  of a callback and \<^verbatim>\<open>startListen\<close>; \<open>connected\<close> is the same endpoint after its first
  client was accepted.
\<close>

definition options_ok :: option_results where
  "options_ok = \<lparr>reuse_address_ec = 0, no_delay_ec = 0, keep_alive_ec = 0, quickack_ec = 0, priority_ec = 0\<rparr>"

definition closes_ok :: close_results where
  "closes_ok = \<lparr>cancel_ec = 0, shutdown_ec = 0, close_ec = 0\<rparr>"

definition listening :: tcp_server where
  "listening = \<lparr>read_buffer = [0, 0, 0, 0], acceptor = Some True, socket = None,
     receive_cb = True, alive = True, sock_open = {}, next_sock = 1, accepts_armed = [0],
     reads_armed = [], trace = [AsyncAccept 0], linux = True\<rparr>"

definition connected :: tcp_server where
  "connected = \<lparr>read_buffer = [0, 0, 0, 0], acceptor = Some True, socket = Some 0,
     receive_cb = True, alive = True, sock_open = {0}, next_sock = 2, accepts_armed = [1],
     reads_armed = [0],
     trace = [AsyncAccept 0, SetOption 0 reuse_address, SetOption 0 no_delay,
              SetOption 0 keep_alive, SetOption 0 TCP_QUICKACK, SetOption 0 SO_PRIORITY,
              LogInfo (AcceptClient 0 0), AsyncRead 0 4, AsyncAccept 1],
     linux = True\<rparr>"

text \<open>\<open>replaced\<close> is \<open>connected\<close> after a second client was accepted: socket 0 is stale.\<close>

definition replaced :: tcp_server where
  "replaced = \<lparr>read_buffer = [0, 0, 0, 0], acceptor = Some True, socket = Some 1,
     receive_cb = True, alive = True, sock_open = {1}, next_sock = 3, accepts_armed = [2],
     reads_armed = [0, 1],
     trace = trace connected @
             [Cancel 0, ShutdownBoth 0, Close 0, LogInfo (NewConnectionCloseOld 0 0),
              SetOption 1 reuse_address, SetOption 1 no_delay, SetOption 1 keep_alive,
              SetOption 1 TCP_QUICKACK, SetOption 1 SO_PRIORITY,
              LogInfo (AcceptClient 1 0), AsyncRead 1 4, AsyncAccept 2],
     linux = True\<rparr>"

text \<open>The operating system refuses \<^verbatim>\<open>TCP_QUICKACK\<close> with \<^verbatim>\<open>EPERM\<close>; every other option call succeeds.\<close>

definition quickack_refused :: option_results where
  "quickack_refused = options_ok\<lparr>quickack_ec := 1\<rparr>"

section \<open>Properties\<close>

subsection \<open>The example states are states of the program\<close>

lemma listening_reachable:
  "\<exists>s. TcpServer (start engine_init) True 30001 4 0 0 = Inr s \<and>
       startListen (setReceiveCallback True s) = listening"
  by (simp add: TcpServer_def start_def engine_init_def failed_def Let_def startListen_def
      doAccept_def setReceiveCallback_def listening_def numeral_eq_Suc)

lemma connected_reachable:
  "step (AcceptDone 0 options_ok closes_ok) listening = Inr connected"
  by (simp add: complete_accept_def accept_cb_def listening_def connected_def options_ok_def
      closes_ok_def failed_def set_option_ec_def set_option_throwing_def doRead_def doAccept_def
      release_def
      Let_def)

lemma replaced_reachable:
  "step (AcceptDone 0 options_ok closes_ok) connected = Inr replaced"
proof -
  have "{Suc 0, 0} - {0::nat} = {Suc 0}" by auto
  then show ?thesis
    by (simp add: complete_accept_def accept_cb_def replaced_def connected_def options_ok_def
      closes_ok_def failed_def set_option_ec_def set_option_throwing_def doRead_def doAccept_def
      release_def
      closeSocket_def Let_def)
qed

lemma wf_listening: "wf listening"
  by (simp add: wf_def listening_def)

text \<open>A repeated \<^verbatim>\<open>startListen\<close> keeps the accept armed before and arms one more.\<close>

lemma wf_startListen: "wf s \<Longrightarrow> wf (startListen s)"
  by (auto simp: startListen_def doAccept_def wf_def less_Suc_eq)

lemma startListen_again:
  "accepts_armed (startListen listening) = [0, 1]"
  by (simp add: startListen_def doAccept_def listening_def)

lemma wf_connected: "wf connected"
  by (simp add: wf_def connected_def)

lemma connected_reads:
  "alive connected" "receive_cb connected" "distinct (reads_armed connected)"
  "0 \<in> set (reads_armed connected)" "0 < length (read_buffer connected)"
  "length (read_buffer connected) = 4"
  by (simp_all add: connected_def)

lemma listening_accepts:
  "alive listening" "accepts_armed listening = [0]" "socket listening = None" "linux listening"
  "\<not> failed 0" "failed (quickack_ec quickack_refused) \<or> failed (priority_ec quickack_refused)"
  by (simp_all add: listening_def quickack_refused_def options_ok_def failed_def)

subsection \<open>The handlers in closed form\<close>

lemma accept_cb_success:
  assumes "alive s" "\<not> failed ec" "linux s \<longrightarrow> \<not> failed (quickack_ec ors) \<and> \<not> failed (priority_ec ors)"
  shows "accept_cb new ec ors crs s =
    Inr (doAccept (s\<lparr>socket := Some new,
            sock_open := sock_open s - set_option (socket s),
            reads_armed := reads_armed s @ [new],
            trace := trace s
              @ (case socket s of
                   Some old \<Rightarrow> if old \<in> sock_open s
                               then [Cancel old, ShutdownBoth old, Close old,
                                     LogInfo (NewConnectionCloseOld old (close_ec crs))]
                               else []
                 | None \<Rightarrow> [])
              @ [SetOption new reuse_address, SetOption new no_delay, SetOption new keep_alive]
              @ (if linux s then [SetOption new TCP_QUICKACK, SetOption new SO_PRIORITY] else [])
              @ [LogInfo (AcceptClient new ec), AsyncRead new (length (read_buffer s))]\<rparr>))"
  using assms
  by (cases s; cases "socket s")
     (auto simp: accept_cb_def closeSocket_def set_option_ec_def set_option_throwing_def
        doRead_def Let_def)

lemma accept_cb_failure:
  assumes "alive s" "failed ec"
  shows "accept_cb new ec ors crs s =
    Inr (doAccept (s\<lparr>socket := None,
            sock_open := sock_open s - set_option (socket s),
            trace := trace s
              @ (case socket s of
                   Some old \<Rightarrow> if old \<in> sock_open s
                               then [Cancel old, ShutdownBoth old, Close old,
                                     LogError (AcceptFailCloseOld old ec (close_ec crs))]
                               else []
                 | None \<Rightarrow> [])\<rparr>))"
  using assms
  by (cases s; cases "socket s")
     (auto simp: accept_cb_def closeSocket_def Let_def)

lemma accept_cb_throws:
  assumes "alive s" "\<not> failed ec" "linux s" "failed (quickack_ec ors) \<or> failed (priority_ec ors)"
  shows "accept_cb new ec ors crs s =
    Inl (SystemError (if failed (quickack_ec ors) then quickack_ec ors else priority_ec ors),
         s\<lparr>sock_open := sock_open s - set_option (socket s),
           trace := trace s
             @ (case socket s of
                  Some old \<Rightarrow> if old \<in> sock_open s
                              then [Cancel old, ShutdownBoth old, Close old,
                                    LogInfo (NewConnectionCloseOld old (close_ec crs))]
                              else []
                | None \<Rightarrow> [])
             @ [SetOption new reuse_address, SetOption new no_delay, SetOption new keep_alive,
                SetOption new TCP_QUICKACK]
             @ (if failed (quickack_ec ors) then [] else [SetOption new SO_PRIORITY])\<rparr>)"
  using assms
  by (cases s; cases "socket s")
     (auto simp: accept_cb_def closeSocket_def set_option_ec_def set_option_throwing_def
        Let_def)

lemma read_cb_failure:
  assumes "alive s" "failed ec"
  shows "read_cb sock ec n crs s =
     s\<lparr>sock_open := sock_open s - {sock},
       trace := trace s @ (if sock \<in> sock_open s
                           then [Cancel sock, ShutdownBoth sock, Close sock,
                                 LogInfo (CloseClient sock (close_ec crs) ec)]
                           else [])\<rparr>"
  using assms by (cases s) (auto simp: read_cb_def closeSocket_def)

lemma read_cb_success:
  assumes "alive s" "\<not> failed ec"
  shows "read_cb sock ec n crs s =
     s\<lparr>reads_armed := reads_armed s @ [sock],
       trace := trace s @ (if receive_cb s then [ReceiveCb (take n (read_buffer s))] else [])
                 @ [AsyncRead sock (length (read_buffer s))]\<rparr>"
  using assms by (cases s) (auto simp: read_cb_def doRead_def)

lemma wf_complete_read:
  assumes "wf s"
  shows "wf (complete_read sock ec data crs s)"
proof (cases "alive s \<and> sock \<in> set (reads_armed s)")
  case False
  then show ?thesis using assms
    by (auto simp: complete_read_def read_cb_def wf_def)
next
  case True
  show ?thesis
  proof (cases "failed ec")
    case True
    with \<open>alive s \<and> sock \<in> set (reads_armed s)\<close> assms show ?thesis
      by (auto simp: complete_read_def read_cb_failure wf_def)
  next
    case False
    with \<open>alive s \<and> sock \<in> set (reads_armed s)\<close> assms show ?thesis
      by (auto simp: complete_read_def read_cb_success wf_def)
  qed
qed

lemma release_installed:
  "socket s = Some new \<Longrightarrow> release new s = s"
  by (simp add: release_def)

lemma complete_accept_dead:
  assumes "\<not> alive s" "accepts_armed s = new # rest"
  shows "complete_accept ec ors crs s =
    Inr (release new (s\<lparr>accepts_armed := rest,
           sock_open := (if failed ec then sock_open s else insert new (sock_open s))\<rparr>))"
  using assms by (simp add: complete_accept_def accept_cb_def)

lemma complete_accept_throws:
  assumes "alive s" "accepts_armed s = new # rest" "linux s" "\<not> failed ec"
    "failed (quickack_ec ors) \<or> failed (priority_ec ors)"
  shows "complete_accept ec ors crs s =
    Inl (SystemError (if failed (quickack_ec ors) then quickack_ec ors else priority_ec ors),
         release new
          (s\<lparr>accepts_armed := rest,
             sock_open := insert new (sock_open s) - set_option (socket s),
             trace := trace s
               @ (case socket s of
                    Some old \<Rightarrow> if old \<in> insert new (sock_open s)
                                then [Cancel old, ShutdownBoth old, Close old,
                                      LogInfo (NewConnectionCloseOld old (close_ec crs))]
                                else []
                  | None \<Rightarrow> [])
               @ [SetOption new reuse_address, SetOption new no_delay, SetOption new keep_alive,
                  SetOption new TCP_QUICKACK]
               @ (if failed (quickack_ec ors) then [] else [SetOption new SO_PRIORITY])\<rparr>))"
  using assms by (cases "socket s") (simp_all add: complete_accept_def accept_cb_throws)

lemma complete_accept_success:
  assumes "alive s" "accepts_armed s = new # rest" "\<not> failed ec"
    "linux s \<longrightarrow> \<not> failed (quickack_ec ors) \<and> \<not> failed (priority_ec ors)"
  shows "complete_accept ec ors crs s =
    Inr (doAccept (s\<lparr>accepts_armed := rest, socket := Some new,
            sock_open := insert new (sock_open s) - set_option (socket s),
            reads_armed := reads_armed s @ [new],
            trace := trace s
              @ (case socket s of
                   Some old \<Rightarrow> if old \<in> insert new (sock_open s)
                               then [Cancel old, ShutdownBoth old, Close old,
                                     LogInfo (NewConnectionCloseOld old (close_ec crs))]
                               else []
                 | None \<Rightarrow> [])
              @ [SetOption new reuse_address, SetOption new no_delay, SetOption new keep_alive]
              @ (if linux s then [SetOption new TCP_QUICKACK, SetOption new SO_PRIORITY] else [])
              @ [LogInfo (AcceptClient new ec), AsyncRead new (length (read_buffer s))]\<rparr>))"
  using assms
  by (cases "socket s")
     (simp_all add: complete_accept_def accept_cb_success release_installed doAccept_def)

lemma complete_accept_failure:
  assumes "alive s" "accepts_armed s = new # rest" "failed ec"
  shows "complete_accept ec ors crs s =
    Inr (release new (doAccept (s\<lparr>accepts_armed := rest, socket := None,
            sock_open := sock_open s - set_option (socket s),
            trace := trace s
              @ (case socket s of
                   Some old \<Rightarrow> if old \<in> sock_open s
                               then [Cancel old, ShutdownBoth old, Close old,
                                     LogError (AcceptFailCloseOld old ec (close_ec crs))]
                               else []
                 | None \<Rightarrow> [])\<rparr>)))"
  using assms by (cases "socket s") (simp_all add: complete_accept_def accept_cb_failure)

lemma wf_complete_accept:
  assumes "wf s" "complete_accept ec ors crs s = Inr s'"
  shows "wf s'"
proof (cases "accepts_armed s")
  case Nil
  with assms show ?thesis by (simp add: complete_accept_def)
next
  case (Cons a rest)
  show ?thesis
  proof (cases "alive s")
    case False
    with Cons assms show ?thesis
      by (auto simp: complete_accept_dead release_def wf_def)
  next
    case True
    show ?thesis
    proof (cases "failed ec")
      case True
      with Cons \<open>alive s\<close> assms show ?thesis
        by (auto simp: complete_accept_failure release_def doAccept_def wf_def less_Suc_eq
            split: if_splits)
    next
      case False
      show ?thesis
      proof (cases "linux s \<longrightarrow> \<not> failed (quickack_ec ors) \<and> \<not> failed (priority_ec ors)")
        case True
        with False Cons \<open>alive s\<close> assms show ?thesis
          by (auto simp: complete_accept_success doAccept_def wf_def less_Suc_eq split: if_splits)
      next
        case False
        with \<open>\<not> failed ec\<close> Cons \<open>alive s\<close> assms show ?thesis
          by (auto simp: complete_accept_throws)
      qed
    qed
  qed
qed

lemma accept_success_replaces:
  assumes "wf s" "alive s" "accepts_armed s = new # rest" "\<not> failed ec"
    "linux s \<longrightarrow> \<not> failed (quickack_ec ors) \<and> \<not> failed (priority_ec ors)"
  shows "\<exists>s'. complete_accept ec ors crs s = Inr s' \<and> wf s' \<and> alive s' \<and>
           socket s' = Some new \<and> sock_open s' = {new} \<and>
           reads_armed s' = reads_armed s @ [new] \<and>
           accepts_armed s' = rest @ [next_sock s] \<and>
           trace s' = trace s
              @ (case socket s of
                   Some old \<Rightarrow> if old \<in> sock_open s
                               then [Cancel old, ShutdownBoth old, Close old,
                                     LogInfo (NewConnectionCloseOld old (close_ec crs))]
                               else []
                 | None \<Rightarrow> [])
              @ [SetOption new reuse_address, SetOption new no_delay, SetOption new keep_alive]
              @ (if linux s then [SetOption new TCP_QUICKACK, SetOption new SO_PRIORITY] else [])
              @ [LogInfo (AcceptClient new ec), AsyncRead new (length (read_buffer s)),
                 AsyncAccept (next_sock s)]"
proof -
  obtain s' where s': "complete_accept ec ors crs s = Inr s'"
    using complete_accept_success [OF assms(2-5)] by simp
  have w: "wf s'" using wf_complete_accept [OF assms(1) s'] .
  have ne: "socket s \<noteq> Some new" "acceptor s \<noteq> None" "sock_open s \<subseteq> set_option (socket s)"
    using assms(1-3) by (auto simp: wf_def)
  have "alive s' \<and> socket s' = Some new \<and> sock_open s' = {new} \<and>
        reads_armed s' = reads_armed s @ [new] \<and> accepts_armed s' = rest @ [next_sock s] \<and>
        trace s' = trace s
              @ (case socket s of
                   Some old \<Rightarrow> if old \<in> sock_open s
                               then [Cancel old, ShutdownBoth old, Close old,
                                     LogInfo (NewConnectionCloseOld old (close_ec crs))]
                               else []
                 | None \<Rightarrow> [])
              @ [SetOption new reuse_address, SetOption new no_delay, SetOption new keep_alive]
              @ (if linux s then [SetOption new TCP_QUICKACK, SetOption new SO_PRIORITY] else [])
              @ [LogInfo (AcceptClient new ec), AsyncRead new (length (read_buffer s)),
                 AsyncAccept (next_sock s)]"
    using s' ne assms(2) unfolding complete_accept_success [OF assms(2-5)]
    by (auto simp: doAccept_def split: option.splits)
  with s' w show ?thesis by blast
qed

lemma accept_completion_rearms:
  assumes "wf s" "alive s" "accepts_armed s = new # rest" "complete_accept ec ors crs s = Inr s'"
  shows "accepts_armed s' = rest @ [next_sock s] \<and>
         (\<exists>pre. trace s' = trace s @ pre @ [AsyncAccept (next_sock s)])"
proof (cases "failed ec")
  case True
  have "acceptor s \<noteq> None" using assms(1,2) by (simp add: wf_def)
  with assms(4) show ?thesis
    unfolding complete_accept_failure [OF assms(2,3) True]
    by (auto simp: doAccept_def release_def)
next
  case False
  show ?thesis
  proof (cases "linux s \<longrightarrow> \<not> failed (quickack_ec ors) \<and> \<not> failed (priority_ec ors)")
    case True
    from accept_success_replaces [OF assms(1-3) False True, of crs] assms(4)
    show ?thesis by auto
  next
    case False
    with complete_accept_throws [OF assms(2,3) _ \<open>\<not> failed ec\<close>, of ors crs] assms(4)
    show ?thesis by auto
  qed
qed

lemma complete_read_full:
  assumes "alive s" "sock \<in> set (reads_armed s)" "length (read_buffer s) \<le> length inbound"
  shows "complete_read sock 0 (take (length (read_buffer s)) inbound) crs s =
     s\<lparr>reads_armed := remove1 sock (reads_armed s) @ [sock],
       read_buffer := take (length (read_buffer s)) inbound,
       trace := trace s @ (if receive_cb s then [ReceiveCb (take (length (read_buffer s)) inbound)] else [])
                 @ [AsyncRead sock (length (read_buffer s))]\<rparr>"
  using assms by (cases s) (simp add: complete_read_def read_cb_success failed_def min_def)

lemma complete_read_short:
  assumes "alive s" "sock \<in> set (reads_armed s)" "failed end_ec"
  shows "complete_read sock end_ec inbound crs s =
     s\<lparr>reads_armed := remove1 sock (reads_armed s),
       read_buffer := take (length (read_buffer s)) (inbound @ drop (length inbound) (read_buffer s)),
       sock_open := sock_open s - {sock},
       trace := trace s @ (if sock \<in> sock_open s
                           then [Cancel sock, ShutdownBoth sock, Close sock,
                                 LogInfo (CloseClient sock (close_ec crs) end_ec)]
                           else [])\<rparr>"
  using assms by (cases s) (simp add: complete_read_def read_cb_failure)

lemma serve_reads_result:
  assumes "alive s" "receive_cb s" "distinct (reads_armed s)" "sock \<in> set (reads_armed s)"
    "0 < length (read_buffer s)" "failed end_ec"
  shows "\<exists>s' ext. serve_reads sock inbound end_ec crs s = Some s' \<and>
           trace s' = trace s @ ext \<and>
           sock \<notin> set (reads_armed s') \<and>
           length (read_buffer s') = length (read_buffer s) \<and>
           (\<forall>d \<in> set (deliveries ext). length d = length (read_buffer s)) \<and>
           length (deliveries ext) = length inbound div length (read_buffer s) \<and>
           concat (deliveries ext)
             = take (length inbound div length (read_buffer s) * length (read_buffer s)) inbound"
  using assms
proof (induction "length inbound" arbitrary: inbound s rule: less_induct)
  case less
  let ?cap = "length (read_buffer s)"
  show ?case
  proof (cases "?cap \<le> length inbound")
    case True
    let ?s1 = "complete_read sock 0 (take ?cap inbound) crs s"
    let ?new = "[ReceiveCb (take ?cap inbound), AsyncRead sock ?cap]"
    have s1: "?s1 = s\<lparr>reads_armed := remove1 sock (reads_armed s) @ [sock],
                       read_buffer := take ?cap inbound,
                       trace := trace s @ ?new\<rparr>"
      using less.prems True by (simp add: complete_read_full)
    have unfold: "serve_reads sock inbound end_ec crs s
                = serve_reads sock (drop ?cap inbound) end_ec crs ?s1"
      using less.prems True
      by (subst serve_reads.simps) (simp add: async_read_completion_def)
    have shorter: "length (drop ?cap inbound) < length inbound"
      using less.prems(5) True unfolding length_drop by arith
    have cap1: "length (read_buffer ?s1) = ?cap"
      using True by (simp add: s1)
    have pre: "alive ?s1" "receive_cb ?s1" "distinct (reads_armed ?s1)"
      "sock \<in> set (reads_armed ?s1)" "0 < length (read_buffer ?s1)"
      using less.prems True by (simp_all add: s1)
    from less.hyps [OF shorter pre \<open>failed end_ec\<close>]
    obtain s' ext where r: "serve_reads sock (drop ?cap inbound) end_ec crs ?s1 = Some s'"
      "trace s' = trace ?s1 @ ext" "sock \<notin> set (reads_armed s')"
      "length (read_buffer s') = ?cap"
      "\<forall>d \<in> set (deliveries ext). length d = ?cap"
      "length (deliveries ext) = length (drop ?cap inbound) div ?cap"
      "concat (deliveries ext)
         = take (length (drop ?cap inbound) div ?cap * ?cap) (drop ?cap inbound)"
      unfolding cap1 by blast
    have divs: "length inbound div ?cap = Suc ((length inbound - ?cap) div ?cap)"
      using True less.prems(5) by (simp add: le_div_geq)
    have tr: "trace s' = trace s @ (?new @ ext)"
      using r(2) by (simp add: s1)
    have d1: "deliveries (?new @ ext) = take ?cap inbound # deliveries ext"
      by simp
    have len1: "length (take ?cap inbound) = ?cap"
      using True by simp
    have c1: "\<forall>d \<in> set (deliveries (?new @ ext)). length d = ?cap"
      using r(5) len1 unfolding d1 by simp
    have c2: "length (deliveries (?new @ ext)) = length inbound div ?cap"
      using r(6) unfolding d1 divs by simp
    have c3: "concat (deliveries (?new @ ext)) = take (length inbound div ?cap * ?cap) inbound"
      using r(7) unfolding d1 divs by (simp add: take_add)
    have "serve_reads sock inbound end_ec crs s = Some s'"
      using unfold r(1) by simp
    then show ?thesis
      using r(3,4) tr c1 c2 c3 by (intro exI [of _ s'] exI [of _ "?new @ ext"] conjI)
  next
    case False
    let ?s1 = "complete_read sock end_ec inbound crs s"
    let ?ext = "if sock \<in> sock_open s
                then [Cancel sock, ShutdownBoth sock, Close sock,
                      LogInfo (CloseClient sock (close_ec crs) end_ec)]
                else []"
    have s1: "?s1 = s\<lparr>reads_armed := remove1 sock (reads_armed s),
         read_buffer := take ?cap (inbound @ drop (length inbound) (read_buffer s)),
         sock_open := sock_open s - {sock},
         trace := trace s @ ?ext\<rparr>"
      using less.prems by (simp add: complete_read_short)
    have gone: "sock \<notin> set (reads_armed ?s1)"
      using less.prems(3) by (simp add: s1)
    have "serve_reads sock inbound end_ec crs s = serve_reads sock [] end_ec crs ?s1"
      using less.prems False
      by (subst serve_reads.simps) (simp add: async_read_completion_def)
    also have "\<dots> = Some ?s1"
      using gone by (subst serve_reads.simps) simp
    finally have res: "serve_reads sock inbound end_ec crs s = Some ?s1" .
    have tr: "trace ?s1 = trace s @ ?ext"
      by (simp add: s1)
    have len: "length (read_buffer ?s1) = ?cap"
      using False by (simp add: s1)
    have d: "deliveries ?ext = []"
      by simp
    have z: "length inbound div ?cap = 0"
      using False by simp
    show ?thesis
      using res tr gone len d z by (intro exI [of _ ?s1] exI [of _ ?ext]) simp
  qed
qed

subsection \<open>The invariant along runs\<close>

lemma wf_destroy: "wf s \<Longrightarrow> wf (destroy crs s)"
  by (auto simp: destroy_def closeSocket_def wf_def Let_def split: option.splits bool.splits)

lemma wf_step:
  assumes "wf s" "step ev s = Inr s'"
  shows "wf s'"
  using assms
  by (cases ev) (auto simp: wf_complete_read wf_destroy dest: wf_complete_accept)


text \<open>
  Once the endpoint is destroyed no socket is open, and none becomes open: the destructor
  closes the occupant, every other socket was closed when it was replaced, and a socket
  accepted afterwards goes with its handler. So the handler of a read that completes on a
  destroyed endpoint, which does nothing, never drops the last reference to an open
  socket.
\<close>

lemma dead_endpoint_step:
  assumes "wf s" "\<not> alive s \<longrightarrow> sock_open s = {}" "step ev s = Inr s'"
  shows "\<not> alive s' \<longrightarrow> sock_open s' = {}"
proof (cases ev)
  case (AcceptDone ec ors crs)
  show ?thesis
  proof (cases "accepts_armed s")
    case Nil
    with AcceptDone assms show ?thesis by (simp add: complete_accept_def)
  next
    case (Cons a rest)
    show ?thesis
    proof (cases "alive s")
      case False
      with Cons AcceptDone assms show ?thesis
        by (auto simp: complete_accept_dead release_def wf_def split: if_splits)
    next
      case True
      show ?thesis
      proof (cases "failed ec")
        case True
        with Cons \<open>alive s\<close> AcceptDone assms(3) show ?thesis
          by (auto simp: complete_accept_failure release_def doAccept_def split: if_splits)
      next
        case False
        show ?thesis
        proof (cases "linux s \<longrightarrow> \<not> failed (quickack_ec ors) \<and> \<not> failed (priority_ec ors)")
          case True
          with False Cons \<open>alive s\<close> AcceptDone assms(3) show ?thesis
            by (auto simp: complete_accept_success doAccept_def split: if_splits)
        next
          case False
          with \<open>\<not> failed ec\<close> Cons \<open>alive s\<close> AcceptDone assms(3) show ?thesis
            by (auto simp: complete_accept_throws)
        qed
      qed
    qed
  qed
next
  case (ReadDone j ec data crs)
  show ?thesis
  proof (cases "alive s")
    case False
    with ReadDone assms show ?thesis
      by (auto simp: complete_read_def read_cb_def split: if_splits)
  next
    case True
    then show ?thesis
      using ReadDone assms(3)
      by (cases "failed ec")
         (auto simp: complete_read_def read_cb_success read_cb_failure split: if_splits)
  qed
next
  case (Destroyed crs)
  with assms show ?thesis
    by (auto simp: destroy_def closeSocket_def Let_def wf_def
        split: option.splits bool.splits if_splits)
qed

lemma dead_endpoint_has_no_open_socket:
  "wf s \<Longrightarrow> \<not> alive s \<longrightarrow> sock_open s = {} \<Longrightarrow> run evs s = Inr s' \<Longrightarrow>
   \<not> alive s' \<longrightarrow> sock_open s' = {}"
proof (induction evs arbitrary: s)
  case Nil
  then show ?case by simp
next
  case (Cons ev evs)
  then obtain s1 where s1: "step ev s = Inr s1" "run evs s1 = Inr s'"
    by (auto split: sum.splits)
  have "wf s1" by (rule wf_step [OF Cons.prems(1) s1(1)])
  moreover have "\<not> alive s1 \<longrightarrow> sock_open s1 = {}"
    by (rule dead_endpoint_step [OF Cons.prems(1,2) s1(1)])
  ultimately show ?case using Cons.IH s1(2) by blast
qed

text \<open>
  Any number of successful accept completions in a row, none of which throws: after the
  last one the slot holds a socket, that socket is the only open one and has its read
  armed, and the next accept is armed.
\<close>

lemma accept_success_keeps_linux:
  assumes "alive s" "accepts_armed s = new # rest" "\<not> failed ec"
    "linux s \<longrightarrow> \<not> failed (quickack_ec ors) \<and> \<not> failed (priority_ec ors)"
    "complete_accept ec ors crs s = Inr s'"
  shows "linux s' = linux s"
  using assms(5) unfolding complete_accept_success [OF assms(1-4)]
  by (auto simp: doAccept_def split: if_splits)

lemma accepts_keep_one_socket:
  assumes "wf s" "alive s" "accepts_armed s \<noteq> []" "evs \<noteq> []"
    "\<forall>e \<in> set evs. \<exists>ec ors crs. e = AcceptDone ec ors crs \<and> \<not> failed ec \<and>
        (linux s \<longrightarrow> \<not> failed (quickack_ec ors) \<and> \<not> failed (priority_ec ors))"
  shows "\<exists>s' k. run evs s = Inr s' \<and> wf s' \<and> alive s' \<and> socket s' = Some k \<and> sock_open s' = {k} \<and>
           k \<in> set (reads_armed s') \<and> accepts_armed s' \<noteq> []"
  using assms
proof (induction evs arbitrary: s)
  case Nil
  then show ?case by simp
next
  case (Cons e evs)
  from Cons.prems(3) obtain new rest where new: "accepts_armed s = new # rest"
    by (cases "accepts_armed s") auto
  from Cons.prems(5) obtain ec ors crs where e: "e = AcceptDone ec ors crs" "\<not> failed ec"
    "linux s \<longrightarrow> \<not> failed (quickack_ec ors) \<and> \<not> failed (priority_ec ors)"
    by auto
  from accept_success_replaces [OF Cons.prems(1,2) new e(2,3), of crs]
  obtain s1 where s1: "complete_accept ec ors crs s = Inr s1" "wf s1" "alive s1"
    "socket s1 = Some new" "sock_open s1 = {new}" "reads_armed s1 = reads_armed s @ [new]"
    "accepts_armed s1 = rest @ [next_sock s]"
    by blast
  have lx: "linux s1 = linux s"
    by (rule accept_success_keeps_linux [OF Cons.prems(2) new e(2,3) s1(1)])
  show ?case
  proof (cases "evs = []")
    case True
    with e(1) s1 show ?thesis by simp
  next
    case False
    have "\<forall>e \<in> set evs. \<exists>ec ors crs. e = AcceptDone ec ors crs \<and> \<not> failed ec \<and>
        (linux s1 \<longrightarrow> \<not> failed (quickack_ec ors) \<and> \<not> failed (priority_ec ors))"
      using Cons.prems(5) lx by simp
    from Cons.IH [OF s1(2,3) _ False this] s1(7) e(1) s1(1)
    show ?thesis by simp
  qed
qed

text \<open>A socket with no read in flight that is not the socket of an armed accept stays so.\<close>

lemma filter_read_of_closing [simp]:
  "filter (is_read_of k) (case x of None \<Rightarrow> [] | Some old \<Rightarrow> if old \<in> S then [Cancel old, ShutdownBoth old, Close old, LogInfo (m old)] else []) = []"
  "filter (is_read_of k) (case x of None \<Rightarrow> [] | Some old \<Rightarrow> if old \<in> S then [Cancel old, ShutdownBoth old, Close old, LogError (m old)] else []) = []"
  by (auto split: option.splits)

lemma retired_complete_read:
  assumes "k \<notin> set (reads_armed s)" "k \<notin> set (accepts_armed s)" "k < next_sock s"
  shows "k \<notin> set (reads_armed (complete_read sock ec data crs s)) \<and>
         accepts_armed (complete_read sock ec data crs s) = accepts_armed s \<and>
         next_sock (complete_read sock ec data crs s) = next_sock s \<and>
         read_launches k (complete_read sock ec data crs s) = read_launches k s"
proof (cases "alive s \<and> sock \<in> set (reads_armed s)")
  case False
  then show ?thesis using assms
    by (auto simp: complete_read_def read_cb_def read_launches_def)
next
  case True
  then have ne: "sock \<noteq> k" using assms by auto
  show ?thesis
  proof (cases "failed ec")
    case True
    with \<open>alive s \<and> sock \<in> set (reads_armed s)\<close> assms show ?thesis
      by (auto simp: complete_read_def read_cb_failure read_launches_def)
  next
    case False
    with \<open>alive s \<and> sock \<in> set (reads_armed s)\<close> assms ne show ?thesis
      by (auto simp: complete_read_def read_cb_success read_launches_def)
  qed
qed

lemma retired_complete_accept:
  assumes "k \<notin> set (reads_armed s)" "k \<notin> set (accepts_armed s)" "k < next_sock s"
  shows "k \<notin> set (reads_armed (final (complete_accept ec ors crs s))) \<and>
         k \<notin> set (accepts_armed (final (complete_accept ec ors crs s))) \<and>
         k < next_sock (final (complete_accept ec ors crs s)) \<and>
         read_launches k (final (complete_accept ec ors crs s)) = read_launches k s"
proof (cases "accepts_armed s")
  case Nil
  with assms show ?thesis by (simp add: complete_accept_def)
next
  case (Cons a rest)
  then have ne: "a \<noteq> k" "k \<notin> set rest" using assms by auto
  show ?thesis
  proof (cases "alive s")
    case False
    with Cons assms ne show ?thesis
      by (auto simp: complete_accept_dead release_def read_launches_def)
  next
    case True
    show ?thesis
    proof (cases "failed ec")
      case True
      with Cons \<open>alive s\<close> assms ne show ?thesis
        by (auto simp: complete_accept_failure release_def doAccept_def read_launches_def)
    next
      case False
      show ?thesis
      proof (cases "linux s \<longrightarrow> \<not> failed (quickack_ec ors) \<and> \<not> failed (priority_ec ors)")
        case True
        with False Cons \<open>alive s\<close> assms ne show ?thesis
          by (auto simp: complete_accept_success doAccept_def read_launches_def)
      next
        case False
        with \<open>\<not> failed ec\<close> Cons \<open>alive s\<close> assms ne show ?thesis
          by (auto simp: complete_accept_throws release_def read_launches_def)
      qed
    qed
  qed
qed

lemma retired_destroy:
  assumes "k \<notin> set (reads_armed s)" "k \<notin> set (accepts_armed s)" "k < next_sock s"
  shows "reads_armed (destroy crs s) = reads_armed s \<and>
         accepts_armed (destroy crs s) = accepts_armed s \<and>
         next_sock (destroy crs s) = next_sock s \<and>
         read_launches k (destroy crs s) = read_launches k s"
  by (auto simp: destroy_def closeSocket_def Let_def read_launches_def split: option.splits bool.splits)

lemma retired_step:
  assumes "k \<notin> set (reads_armed s)" "k \<notin> set (accepts_armed s)" "k < next_sock s"
  shows "k \<notin> set (reads_armed (final (step ev s))) \<and>
         k \<notin> set (accepts_armed (final (step ev s))) \<and>
         k < next_sock (final (step ev s)) \<and>
         read_launches k (final (step ev s)) = read_launches k s"
proof (cases ev)
  case (AcceptDone ec ors crs)
  with retired_complete_accept [OF assms] show ?thesis by simp
next
  case (ReadDone sock ec data crs)
  with retired_complete_read [OF assms] assms show ?thesis by simp
next
  case (Destroyed crs)
  with retired_destroy [OF assms] assms show ?thesis by simp
qed

lemma retired_run:
  "k \<notin> set (reads_armed s) \<Longrightarrow> k \<notin> set (accepts_armed s) \<Longrightarrow> k < next_sock s \<Longrightarrow>
   k \<notin> set (reads_armed (final (run evs s))) \<and>
   read_launches k (final (run evs s)) = read_launches k s"
proof (induction evs arbitrary: s)
  case Nil
  then show ?case by simp
next
  case (Cons ev evs)
  show ?case
  proof (cases "step ev s")
    case (Inl fs)
    with retired_step [OF Cons.prems, of ev] show ?thesis by simp
  next
    case (Inr s')
    with retired_step [OF Cons.prems, of ev]
    have "k \<notin> set (reads_armed s')" "k \<notin> set (accepts_armed s')" "k < next_sock s'"
      and eq: "read_launches k s' = read_launches k s"
      by simp_all
    from Cons.IH [OF this(1-3)] eq Inr show ?thesis by simp
  qed
qed

subsection \<open>Buffer, deliveries and the Read Loop of one connection\<close>

lemma take_min_front:
  "take (min (length d) c) (take c (d @ r)) = take (min (length d) c) d"
  by (simp add: min_def)

lemma count_list_remove1_other:
  "x \<noteq> y \<Longrightarrow> count_list (remove1 x xs) y = count_list xs y"
  by (induction xs) auto

lemma deliveries_append:
  "deliveries (xs @ ys) = deliveries xs @ deliveries ys"
  by (induction xs rule: deliveries.induct) auto

lemma complete_read_emits_same:
  assumes "alive s1 = alive s" "(occ \<in> set (reads_armed s1)) = (occ \<in> set (reads_armed s))"
    "receive_cb s1 = receive_cb s"
    "length (read_buffer s1) = length (read_buffer s)" "(occ \<in> sock_open s1) = (occ \<in> sock_open s)"
  shows "drop (length (trace s1)) (trace (complete_read occ ec data crs s1))
       = drop (length (trace s)) (trace (complete_read occ ec data crs s))"
proof (cases "alive s \<and> occ \<in> set (reads_armed s)")
  case False
  then show ?thesis using assms
    by (auto simp: complete_read_def read_cb_def)
next
  case True
  show ?thesis
  proof (cases "failed ec")
    case True
    with \<open>alive s \<and> occ \<in> set (reads_armed s)\<close> assms show ?thesis
      by (simp add: complete_read_def read_cb_failure)
  next
    case False
    with \<open>alive s \<and> occ \<in> set (reads_armed s)\<close> assms show ?thesis
      by (simp add: complete_read_def read_cb_success take_min_front)
  qed
qed


lemma accept_cb_keeps_buffer:
  "read_buffer (final (accept_cb new ec ors crs s)) = read_buffer s"
proof (cases "alive s")
  case False
  then show ?thesis by (simp add: accept_cb_def)
next
  case True
  show ?thesis
  proof (cases "failed ec")
    case True
    with \<open>alive s\<close> show ?thesis by (simp add: accept_cb_failure doAccept_def)
  next
    case False
    show ?thesis
    proof (cases "linux s \<longrightarrow> \<not> failed (quickack_ec ors) \<and> \<not> failed (priority_ec ors)")
      case True
      with False \<open>alive s\<close> show ?thesis by (simp add: accept_cb_success doAccept_def)
    next
      case False
      with \<open>\<not> failed ec\<close> \<open>alive s\<close> show ?thesis by (auto simp: accept_cb_throws)
    qed
  qed
qed

lemma complete_read_keeps_buffer_length:
  "length (read_buffer (complete_read sock ec data crs s)) = length (read_buffer s)"
proof (cases "alive s")
  case False
  then show ?thesis by (simp add: complete_read_def read_cb_def min_def)
next
  case True
  then show ?thesis
    by (cases "failed ec") (simp_all add: complete_read_def read_cb_success read_cb_failure min_def)
qed

lemma step_keeps_buffer_length:
  "length (read_buffer (final (step ev s))) = length (read_buffer s)"
proof (cases ev)
  case (AcceptDone ec ors crs)
  show ?thesis
  proof (cases "accepts_armed s")
    case Nil
    with AcceptDone show ?thesis by (simp add: complete_accept_def)
  next
    case (Cons a rest)
    let ?s0 = "s\<lparr>accepts_armed := rest,
                  sock_open := (if failed ec then sock_open s else insert a (sock_open s))\<rparr>"
    have "read_buffer (final (accept_cb a ec ors crs ?s0)) = read_buffer s"
      by (simp add: accept_cb_keeps_buffer)
    with AcceptDone Cons show ?thesis
      by (cases "accept_cb a ec ors crs ?s0")
         (auto simp: complete_accept_def release_def)
  qed
next
  case (ReadDone sock ec data crs)
  then show ?thesis by (simp add: complete_read_keeps_buffer_length)
next
  case (Destroyed crs)
  then show ?thesis
    by (auto simp: destroy_def closeSocket_def Let_def split: option.splits bool.splits)
qed

subsection \<open>One connection among the other completions\<close>











text \<open>
  On the 4-byte buffer a connection whose peer has sent eight bytes is replaced after its
  first buffer was delivered: the second buffer, although sent, is never delivered.
\<close>

lemma replaced_connection_is_cut:
  "serve_among 0 [1, 2, 3, 4, 5, 6, 7, 8] 2 closes_ok
     [[], [AcceptDone 0 options_ok closes_ok]] connected = [[1, 2, 3, 4]]"
proof -
  have set_eq: "{Suc 0, 0} - {0::nat} = {Suc 0}" by auto
  show ?thesis
    by (simp add: connection_read_completion_def async_read_completion_def complete_read_def
        read_cb_def doRead_def complete_accept_def accept_cb_def closeSocket_def
        set_option_ec_def set_option_throwing_def doAccept_def release_def connected_def
        options_ok_def closes_ok_def failed_def Let_def set_eq)
qed

subsection \<open>Engine lifecycle\<close>

text \<open>
  C8. \<^verbatim>\<open>start()\<close> is idempotent: the state after a second call equals the state after the
  first, and a call on a running engine changes nothing. From an engine with no thread,
  two calls leave exactly one operating-system thread, and \<^verbatim>\<open>stop()\<close> then joins it: no
  thread is left and the three static pointers are null again.
\<close>

theorem start_idempotent:
  "start (start e) = start e \<and>
   (s_server_thread e \<noteq> None \<longrightarrow> start e = e) \<and>
   (s_server_thread e = None \<and> os_threads e = [] \<longrightarrow>
      os_threads (start e) = [threads_created e] \<and>
      os_threads (start (start e)) = [threads_created e] \<and>
      threads_created (start (start e)) = Suc (threads_created e) \<and>
      (\<exists>e'. stop (start (start e)) = Inr e' \<and> os_threads e' = [] \<and>
            s_server_thread e' = None \<and> s_work_guard_ptr e' = None \<and>
            s_io_context_ptr e' = None))"
  by (simp add: start_def stop_def Let_def)

theorem start_idempotent_witness:
  "start (start engine_init) = start engine_init \<and>
   os_threads (start (start engine_init)) = [0] \<and>
   threads_created (start (start engine_init)) = 1 \<and>
   (\<exists>e'. stop (start (start engine_init)) = Inr e' \<and> os_threads e' = [] \<and>
         s_server_thread e' = None)"
  using start_idempotent [of engine_init]
  by (simp add: engine_init_def start_def stop_def Let_def)

text \<open>
  C9. \<^verbatim>\<open>stop()\<close> has no branch for an engine that is not started. Before any \<^verbatim>\<open>start()\<close>,
  and again in the state a successful \<^verbatim>\<open>stop()\<close> leaves, the work-guard pointer it
  dereferences first is null, and so is the reactor pointer it dereferences next; it
  returns normally exactly when both are set, which is what \<^verbatim>\<open>start()\<close> establishes.
\<close>

theorem stop_requires_started:
  "stop engine_init = Inl (NullDereference ''s_work_guard_ptr_'') \<and>
   s_io_context_ptr engine_init = None \<and>
   (\<forall>e'. stop e = Inr e' \<longrightarrow>
      stop e' = Inl (NullDereference ''s_work_guard_ptr_'') \<and> s_io_context_ptr e' = None) \<and>
   (s_work_guard_ptr e = None \<longrightarrow> stop e = Inl (NullDereference ''s_work_guard_ptr_'')) \<and>
   ((\<exists>e'. stop e = Inr e') \<longleftrightarrow> s_work_guard_ptr e \<noteq> None \<and> s_io_context_ptr e \<noteq> None) \<and>
   (s_server_thread e = None \<longrightarrow> (\<exists>e'. stop (start e) = Inr e'))"
  by (auto simp: stop_def start_def engine_init_def Let_def split: option.splits)

theorem stop_requires_started_witness:
  "\<exists>e'. stop (start engine_init) = Inr e' \<and>
        stop e' = Inl (NullDereference ''s_work_guard_ptr_'') \<and> s_io_context_ptr e' = None \<and>
        s_work_guard_ptr e' = None"
  using stop_requires_started [of "start engine_init"]
  by (auto simp: start_def stop_def engine_init_def Let_def)

subsection \<open>Writer\<close>

lemma sint_narrow_small:
  assumes "unat (w :: 64 word) < 2 ^ 31"
  shows "sint (ucast w :: 32 word) = int (unat w)"
proof -
  have eq: "int (unat w) = uint w"
    by simp
  have "int (unat w) < int (2 ^ 31)"
    using assms by (simp only: of_nat_less_iff)
  then have lt: "uint w < 2 ^ 31"
    by (simp only: eq) simp
  have "sint (ucast w :: 32 word) = signed_take_bit 31 (uint w)"
    by (simp add: sint_uint unsigned_ucast_eq signed_take_bit_take_bit)
  also have "\<dots> = uint w"
  proof (rule signed_take_bit_int_eq_self)
    have "- (2 ^ 31) \<le> (0::int)" by simp
    also have "0 \<le> uint w" by simp
    finally show "- (2 ^ 31) \<le> uint w" .
    show "uint w < 2 ^ 31" by (rule lt)
  qed
  finally show ?thesis by (simp only: eq)
qed

text \<open>
  C4. \<^verbatim>\<open>writeClient\<close>: with the slot empty it returns \<open>-1\<close> and leaves the state, and so
  the trace of actions, as it was: no I/O. With a socket in the slot it performs one write
  on that socket; it returns the count of bytes written when the write reported no error
  and the count fits a non-negative \<^verbatim>\<open>int\<close>, and \<open>-1\<close> whenever the write reported an
  error or the narrowed count is negative.
\<close>

theorem writeClient_contract:
  "(socket s = None \<longrightarrow> writeClient data sz wr s = (- 1, s)) \<and>
   (\<forall>k. socket s = Some k \<longrightarrow>
      snd (writeClient data sz wr s) = s\<lparr>trace := trace s @ [Write k data sz]\<rparr> \<and>
      (\<not> failed (snd wr) \<and> unat (fst wr) < 2 ^ 31 \<longrightarrow>
         fst (writeClient data sz wr s) = int (unat (fst wr))) \<and>
      (failed (snd wr) \<or> sint (ucast (fst wr) :: 32 word) < 0 \<longrightarrow>
         fst (writeClient data sz wr s) = - 1))"
  by (auto simp: writeClient_def Let_def sint_narrow_small)

theorem writeClient_contract_witness:
  "writeClient [1, 2, 3] 3 (3, 0) listening = (- 1, listening) \<and>
   writeClient [1, 2, 3] 3 (3, 0) connected
     = (3, connected\<lparr>trace := trace connected @ [Write 0 [1, 2, 3] 3]\<rparr>) \<and>
   fst (writeClient [1, 2, 3] 3 (1, 32) connected) = - 1"
  using writeClient_contract [of listening "[1, 2, 3]" 3 "(3, 0)"]
    writeClient_contract [of connected "[1, 2, 3]" 3 "(3, 0)"]
    writeClient_contract [of connected "[1, 2, 3]" 3 "(1, 32)"]
  by (simp add: listening_def connected_def failed_def prod_eq_iff)

subsection \<open>Acceptor Loop\<close>

text \<open>
  The accept handler configures the new socket with five option calls. Lines 62-64 pass
  \<^verbatim>\<open>ignore_ec\<close>; lines 66-67, compiled on Linux only, call the overload that takes no
  \<^verbatim>\<open>error_code\<close> and reports a failure by throwing. The three theorems of this subsection
  evaluate the handler when one of these two calls fails. The lemmas
  \<open>accept_success_replaces\<close>, \<open>accepts_keep_one_socket\<close>, \<open>accept_completion_rearms\<close>
  and \<open>wf_run\<close> above cover every other case: the accepted socket becomes the occupant of the slot and the only open
  socket, the previous occupant is closed before the read on the new one is armed, and a
  new accept is armed after a successful and after a failed completion alike.
\<close>

text \<open>
  C3. The outcomes of the address-reuse, no-delay and keep-alive calls do not influence the
  handler at all. A failure of the quick-acknowledge or of the priority call on Linux
  leaves the handler with \<^verbatim>\<open>system_error\<close>: the slot keeps its previous content and no
  read is armed on the new socket.
\<close>

theorem throwing_option_failure_aborts_accept:
  "complete_accept ec (ors\<lparr>reuse_address_ec := a, no_delay_ec := b, keep_alive_ec := c\<rparr>) crs s
     = complete_accept ec ors crs s \<and>
   (alive s \<and> accepts_armed s = new # rest \<and> linux s \<and> \<not> failed ec \<and>
    (failed (quickack_ec ors) \<or> failed (priority_ec ors)) \<longrightarrow>
      (\<exists>s'. complete_accept ec ors crs s
               = Inl (SystemError (if failed (quickack_ec ors) then quickack_ec ors
                                   else priority_ec ors), s') \<and>
            socket s' = socket s \<and> reads_armed s' = reads_armed s \<and>
            read_launches new s' = read_launches new s))"
proof -
  have "accept_cb n ec (ors\<lparr>reuse_address_ec := a, no_delay_ec := b, keep_alive_ec := c\<rparr>) crs t
     = accept_cb n ec ors crs t" for n t
    by (simp add: accept_cb_def set_option_ec_def Let_def
          cong del: if_weak_cong sum.case_cong_weak option.case_cong_weak
          cong: if_cong sum.case_cong option.case_cong)
  then have "complete_accept ec (ors\<lparr>reuse_address_ec := a, no_delay_ec := b, keep_alive_ec := c\<rparr>) crs s
     = complete_accept ec ors crs s"
    by (cases "accepts_armed s") (simp_all add: complete_accept_def)
  moreover have "alive s \<and> accepts_armed s = new # rest \<and> linux s \<and> \<not> failed ec \<and>
    (failed (quickack_ec ors) \<or> failed (priority_ec ors)) \<longrightarrow>
      (\<exists>s'. complete_accept ec ors crs s
               = Inl (SystemError (if failed (quickack_ec ors) then quickack_ec ors
                                   else priority_ec ors), s') \<and>
            socket s' = socket s \<and> reads_armed s' = reads_armed s \<and>
            read_launches new s' = read_launches new s)"
    by (auto simp: complete_accept_throws release_def read_launches_def)
  ultimately show ?thesis by blast
qed

theorem throwing_option_failure_aborts_accept_witness:
  "alive listening \<and> accepts_armed listening = [0] \<and> linux listening \<and> \<not> failed 0 \<and>
   failed (quickack_ec quickack_refused) \<and>
   (\<exists>s'. complete_accept 0 quickack_refused closes_ok listening = Inl (SystemError 1, s') \<and>
         socket s' = None \<and> reads_armed s' = [])"
proof -
  have q: "quickack_ec quickack_refused = 1" "failed (quickack_ec quickack_refused)"
    by (simp_all add: quickack_refused_def options_ok_def failed_def)
  have l: "socket listening = None" "reads_armed listening = []"
    by (simp_all add: listening_def)
  from throwing_option_failure_aborts_accept
         [where ec = 0 and ors = quickack_refused and crs = closes_ok and s = listening and new = 0
            and rest = "[]" and a = 0 and b = 0 and c = 0]
    listening_accepts q
  have "\<exists>s'. complete_accept 0 quickack_refused closes_ok listening = Inl (SystemError 1, s') \<and>
         socket s' = socket listening \<and> reads_armed s' = reads_armed listening"
    by auto
  then have e: "\<exists>s'. complete_accept 0 quickack_refused closes_ok listening = Inl (SystemError 1, s') \<and>
         socket s' = None \<and> reads_armed s' = []"
    by (simp only: l)
  show ?thesis
    by (intro conjI listening_accepts(1,2,4,5) q(2) e)
qed

text \<open>
  C6. After a successful accept completion in which the quick-acknowledge or the priority
  call fails, no new accept is armed: the handler armed none before the exception (the
  armed accepts are those that were armed already, less the completed one), and the
  exception ends the run of the reactor, so no later completion is dispatched either.
\<close>

theorem accept_not_rearmed_after_option_throw:
  assumes "alive s" "accepts_armed s = new # rest" "linux s" "\<not> failed ec"
    "failed (quickack_ec ors) \<or> failed (priority_ec ors)"
  shows "accepts_armed (final (complete_accept ec ors crs s)) = rest \<and>
         (\<forall>k. AsyncAccept k \<notin> set (drop (length (trace s)) (trace (final (complete_accept ec ors crs s))))) \<and>
         (\<forall>evs. run (AcceptDone ec ors crs # evs) s = complete_accept ec ors crs s)"
  using assms
  by (auto simp: complete_accept_throws release_def split: option.splits if_splits)

theorem accept_not_rearmed_after_option_throw_witness:
  "alive listening \<and> accepts_armed listening = [0] \<and> linux listening \<and> \<not> failed 0 \<and>
   failed (quickack_ec quickack_refused) \<and>
   accepts_armed (final (complete_accept 0 quickack_refused closes_ok listening)) = [] \<and>
   run [AcceptDone 0 quickack_refused closes_ok, AcceptDone 0 options_ok closes_ok] listening
     = complete_accept 0 quickack_refused closes_ok listening"
proof -
  have q: "failed (quickack_ec quickack_refused)"
    by (simp add: quickack_refused_def options_ok_def failed_def)
  note t = accept_not_rearmed_after_option_throw [OF listening_accepts(1,2,4,5,6), of closes_ok]
  from t have c1: "accepts_armed (final (complete_accept 0 quickack_refused closes_ok listening)) = []"
    by blast
  from t have c2: "run [AcceptDone 0 quickack_refused closes_ok, AcceptDone 0 options_ok closes_ok] listening
     = complete_accept 0 quickack_refused closes_ok listening"
    by blast
  show ?thesis
    by (intro conjI listening_accepts(1,2,4,5) q c1 c2)
qed

text \<open>
  C1. After a successful accept completion on an endpoint with an empty slot in which the
  quick-acknowledge or the priority call fails, the slot is still empty and the endpoint
  reports no client: the accepted socket was not installed and no read was armed on it.
  The handler held its only shared pointer, so the socket is destroyed while the
  exception unwinds: the accepted connection is closed, and the endpoint is left with no
  open socket at all.
\<close>

theorem slot_empty_after_accept_when_option_throws:
  assumes "wf s" "alive s" "accepts_armed s = new # rest" "socket s = None" "linux s"
    "\<not> failed ec" "failed (quickack_ec ors) \<or> failed (priority_ec ors)"
  shows "socket (final (complete_accept ec ors crs s)) = None \<and>
         \<not> isClientConnected (final (complete_accept ec ors crs s)) \<and>
         new \<notin> set (reads_armed (final (complete_accept ec ors crs s))) \<and>
         read_launches new (final (complete_accept ec ors crs s)) = read_launches new s \<and>
         new \<notin> sock_open (final (complete_accept ec ors crs s)) \<and>
         sock_open (final (complete_accept ec ors crs s)) = {}"
proof -
  have fresh: "new \<notin> set (reads_armed s)" "sock_open s = {}"
    using assms(1-4) by (auto simp: wf_def)
  show ?thesis
    using assms(2-7) fresh
    by (auto simp: complete_accept_throws release_def isClientConnected_def read_launches_def)
qed

theorem slot_empty_after_accept_when_option_throws_witness:
  "wf listening \<and> alive listening \<and> accepts_armed listening = [0] \<and> socket listening = None \<and>
   linux listening \<and> \<not> failed 0 \<and> failed (quickack_ec quickack_refused) \<and>
   socket (final (complete_accept 0 quickack_refused closes_ok listening)) = None \<and>
   \<not> isClientConnected (final (complete_accept 0 quickack_refused closes_ok listening)) \<and>
   0 \<notin> sock_open (final (complete_accept 0 quickack_refused closes_ok listening)) \<and>
   sock_open (final (complete_accept 0 quickack_refused closes_ok listening)) = {}"
proof -
  have q: "failed (quickack_ec quickack_refused)"
    by (simp add: quickack_refused_def options_ok_def failed_def)
  note t = slot_empty_after_accept_when_option_throws [OF wf_listening listening_accepts, of closes_ok]
  from t have c1: "socket (final (complete_accept 0 quickack_refused closes_ok listening)) = None"
    and c2: "\<not> isClientConnected (final (complete_accept 0 quickack_refused closes_ok listening))"
    and c3: "0 \<notin> sock_open (final (complete_accept 0 quickack_refused closes_ok listening))"
    and c4: "sock_open (final (complete_accept 0 quickack_refused closes_ok listening)) = {}"
    by blast+
  show ?thesis
    by (intro conjI wf_listening listening_accepts(1-5) q c1 c2 c3 c4)
qed

subsection \<open>Read Loop\<close>

text \<open>
  C5. When the read of a socket completes with a failure on a live endpoint: the socket is
  not open afterwards; if it was open the handler issued cancel, shutdown of both
  directions and close on it, whatever their three outcomes, and then recorded the
  informational event, and it did nothing else; the socket has no read armed; and along
  every later run of completions and teardown no read is armed for it again (the count of
  reads ever armed on it stays what it was at the failure).
\<close>

theorem read_failure_ends_loop:
  assumes "wf s" "alive s" "sock \<in> set (reads_armed s)" "failed ec"
  shows "sock \<notin> sock_open (complete_read sock ec data crs s) \<and>
         sock \<notin> set (reads_armed (complete_read sock ec data crs s)) \<and>
         trace (complete_read sock ec data crs s) =
           trace s @ (if sock \<in> sock_open s
                      then [Cancel sock, ShutdownBoth sock, Close sock,
                            LogInfo (CloseClient sock (close_ec crs) ec)]
                      else []) \<and>
         (\<forall>evs. sock \<notin> set (reads_armed (final (run evs (complete_read sock ec data crs s)))) \<and>
                read_launches sock (final (run evs (complete_read sock ec data crs s)))
                  = read_launches sock s)"
proof -
  let ?s1 = "complete_read sock ec data crs s"
  have s1: "?s1 = s\<lparr>reads_armed := remove1 sock (reads_armed s),
                     read_buffer := take (length (read_buffer s)) (data @ drop (length data) (read_buffer s)),
                     sock_open := sock_open s - {sock},
                     trace := trace s @ (if sock \<in> sock_open s
                                         then [Cancel sock, ShutdownBoth sock, Close sock,
                                               LogInfo (CloseClient sock (close_ec crs) ec)]
                                         else [])\<rparr>"
    using assms by (simp add: complete_read_def read_cb_failure)
  have a: "sock \<notin> set (reads_armed ?s1)"
    using assms(1) by (simp add: s1 wf_def)
  have b: "sock \<notin> set (accepts_armed ?s1)"
    using assms(1,3) by (auto simp: s1 wf_def)
  have c: "sock < next_sock ?s1"
    using assms(1,3) by (auto simp: s1 wf_def)
  have d: "read_launches sock ?s1 = read_launches sock s"
    by (simp add: s1 read_launches_def)
  have "\<forall>evs. sock \<notin> set (reads_armed (final (run evs ?s1))) \<and>
              read_launches sock (final (run evs ?s1)) = read_launches sock s"
    using retired_run [OF a b c] d by simp
  moreover have "sock \<notin> sock_open ?s1"
    by (simp add: s1)
  moreover have "trace ?s1 = trace s @ (if sock \<in> sock_open s
                      then [Cancel sock, ShutdownBoth sock, Close sock,
                            LogInfo (CloseClient sock (close_ec crs) ec)]
                      else [])"
    by (simp add: s1)
  ultimately show ?thesis using a by blast
qed

theorem read_failure_ends_loop_witness:
  "wf connected \<and> alive connected \<and> 0 \<in> set (reads_armed connected) \<and> failed 2 \<and>
   0 \<notin> sock_open (complete_read 0 2 [1, 2] closes_ok connected) \<and>
   0 \<notin> set (reads_armed (complete_read 0 2 [1, 2] closes_ok connected)) \<and>
   trace (complete_read 0 2 [1, 2] closes_ok connected) =
     trace connected @ [Cancel 0, ShutdownBoth 0, Close 0, LogInfo (CloseClient 0 0 2)] \<and>
   read_launches 0 (final (run [AcceptDone 0 options_ok closes_ok, ReadDone 1 0 [5, 6, 7, 8] closes_ok]
       (complete_read 0 2 [1, 2] closes_ok connected))) = 1"
proof -
  have h: "wf connected" "alive connected" "0 \<in> set (reads_armed connected)" "failed 2"
    by (rule wf_connected) (simp_all add: connected_def failed_def)
  have l: "read_launches 0 connected = 1"
    by (simp add: read_launches_def connected_def)
  have o: "0 \<in> sock_open connected" "close_ec closes_ok = 0"
    by (simp_all add: connected_def closes_ok_def)
  note t = read_failure_ends_loop [OF h, of "[1, 2]" closes_ok]
  from t have "read_launches 0 (final (run [AcceptDone 0 options_ok closes_ok, ReadDone 1 0 [5, 6, 7, 8] closes_ok]
       (complete_read 0 2 [1, 2] closes_ok connected))) = read_launches 0 connected"
    by blast
  then have c4: "read_launches 0 (final (run [AcceptDone 0 options_ok closes_ok, ReadDone 1 0 [5, 6, 7, 8] closes_ok]
       (complete_read 0 2 [1, 2] closes_ok connected))) = 1"
    by (simp only: l)
  from t have c1: "0 \<notin> sock_open (complete_read 0 2 [1, 2] closes_ok connected)"
    and c2: "0 \<notin> set (reads_armed (complete_read 0 2 [1, 2] closes_ok connected))"
    by blast+
  from t have "trace (complete_read 0 2 [1, 2] closes_ok connected) =
     trace connected @ (if 0 \<in> sock_open connected
                      then [Cancel 0, ShutdownBoth 0, Close 0,
                            LogInfo (CloseClient 0 (close_ec closes_ok) 2)]
                      else [])"
    by blast
  then have c3: "trace (complete_read 0 2 [1, 2] closes_ok connected) =
     trace connected @ [Cancel 0, ShutdownBoth 0, Close 0, LogInfo (CloseClient 0 0 2)]"
    by (simp only: o if_True)
  show ?thesis
    by (intro conjI h c1 c2 c3 c4)
qed

text \<open>
  C7. A read failure completing on a socket other than the occupant of the slot leaves the
  occupant installed, leaves it open or closed as it was, keeps its armed read, arms no
  read and delivers nothing; the handler does not touch the buffer; and the next
  completion of the occupant's own read emits exactly the actions it would have emitted
  had the stale failure not been handled.
\<close>

theorem stale_read_failure_frame:
  assumes "socket s = Some occ" "sock \<noteq> occ" "failed ec"
  shows "socket (complete_read sock ec data crs s) = Some occ \<and>
         (occ \<in> sock_open (complete_read sock ec data crs s) \<longleftrightarrow> occ \<in> sock_open s) \<and>
         isClientConnected (complete_read sock ec data crs s) = isClientConnected s \<and>
         count_list (reads_armed (complete_read sock ec data crs s)) occ = count_list (reads_armed s) occ \<and>
         read_launches occ (complete_read sock ec data crs s) = read_launches occ s \<and>
         deliveries (trace (complete_read sock ec data crs s)) = deliveries (trace s) \<and>
         read_buffer (read_cb sock ec n crs s) = read_buffer s \<and>
         (\<forall>ec' data' crs'.
            drop (length (trace (complete_read sock ec data crs s)))
                 (trace (complete_read occ ec' data' crs' (complete_read sock ec data crs s)))
          = drop (length (trace s)) (trace (complete_read occ ec' data' crs' s)))"
proof -
  let ?s1 = "complete_read sock ec data crs s"
  have shape: "?s1 = s \<or>
      ?s1 = s\<lparr>reads_armed := remove1 sock (reads_armed s),
               read_buffer := take (length (read_buffer s)) (data @ drop (length data) (read_buffer s))\<rparr> \<or>
      ?s1 = s\<lparr>reads_armed := remove1 sock (reads_armed s),
               read_buffer := take (length (read_buffer s)) (data @ drop (length data) (read_buffer s)),
               sock_open := sock_open s - {sock},
               trace := trace s @ (if sock \<in> sock_open s
                                   then [Cancel sock, ShutdownBoth sock, Close sock,
                                         LogInfo (CloseClient sock (close_ec crs) ec)]
                                   else [])\<rparr>"
  proof (cases "alive s")
    case True
    with assms(3) show ?thesis by (simp add: complete_read_def read_cb_failure)
  next
    case False
    then show ?thesis by (simp add: complete_read_def read_cb_def)
  qed
  have f1: "socket ?s1 = Some occ"
    using shape assms(1) by auto
  have f2: "(occ \<in> sock_open ?s1) = (occ \<in> sock_open s)"
    using shape assms(2) by auto
  have f3: "isClientConnected ?s1 = isClientConnected s"
    using f1 f2 assms(1) by (simp add: isClientConnected_def)
  have f4: "count_list (reads_armed ?s1) occ = count_list (reads_armed s) occ"
    using shape assms(2) by (auto simp: count_list_remove1_other)
  have f5: "read_launches occ ?s1 = read_launches occ s"
    using shape by (auto simp: read_launches_def)
  have f6: "deliveries (trace ?s1) = deliveries (trace s)"
    using shape by (auto simp: deliveries_append)
  have f7: "read_buffer (read_cb sock ec n crs s) = read_buffer s"
  proof (cases "alive s")
    case True
    with assms(3) show ?thesis by (simp add: read_cb_failure)
  next
    case False
    then show ?thesis by (simp add: read_cb_def)
  qed
  have g: "alive ?s1 = alive s" "receive_cb ?s1 = receive_cb s"
      "length (read_buffer ?s1) = length (read_buffer s)"
      "(occ \<in> set (reads_armed ?s1)) = (occ \<in> set (reads_armed s))"
    using shape assms(2) by auto
  have f8: "\<forall>ec' data' crs'.
            drop (length (trace ?s1)) (trace (complete_read occ ec' data' crs' ?s1))
          = drop (length (trace s)) (trace (complete_read occ ec' data' crs' s))"
    using complete_read_emits_same [OF g(1) g(4) g(2) g(3) f2] by blast
  show ?thesis
    by (intro conjI f1 f2 f3 f4 f5 f6 f7 f8)
qed

theorem stale_read_failure_frame_witness:
  "socket replaced = Some 1 \<and> (0::nat) \<noteq> 1 \<and> failed 125 \<and>
   socket (complete_read 0 125 [] closes_ok replaced) = Some 1 \<and>
   1 \<in> sock_open (complete_read 0 125 [] closes_ok replaced) \<and>
   isClientConnected (complete_read 0 125 [] closes_ok replaced) \<and>
   count_list (reads_armed (complete_read 0 125 [] closes_ok replaced)) 1 = 1"
proof -
  have h: "socket replaced = Some 1" "(0::nat) \<noteq> 1" "failed 125"
    by (simp_all add: replaced_def failed_def)
  have v: "1 \<in> sock_open replaced" "isClientConnected replaced"
    "count_list (reads_armed replaced) 1 = 1"
    by (simp_all add: replaced_def isClientConnected_def)
  note t = stale_read_failure_frame [OF h, of "[]" closes_ok]
  from t v have c1: "socket (complete_read 0 125 [] closes_ok replaced) = Some 1"
    and c2: "1 \<in> sock_open (complete_read 0 125 [] closes_ok replaced)"
    and c3: "isClientConnected (complete_read 0 125 [] closes_ok replaced)"
    and c4: "count_list (reads_armed (complete_read 0 125 [] closes_ok replaced)) 1 = 1"
    by simp_all
  show ?thesis
    by (intro conjI h c1 c2 c3 c4)
qed




text \<open>
  C10. The read is armed over the whole buffer and completes without error only when the
  buffer is full: a completion that invokes the callback hands it exactly as many bytes as
  the buffer holds; a completion cut short by the end of the stream hands it nothing and
  arms no further read, so the bytes short of a full buffer are never delivered. Over a
  whole connection every delivery has the length of the buffer and the undelivered rest is
  the length of the stream modulo the capacity. The capacity is the size given to the
  constructor and no step changes it.
\<close>

theorem delivery_is_full_buffer:
  assumes "alive s" "receive_cb s" "distinct (reads_armed s)" "sock \<in> set (reads_armed s)"
    "failed end_ec"
  shows "(length (read_buffer s) \<le> length inbound \<longrightarrow>
            async_read_completion (length (read_buffer s)) inbound end_ec
              = (0, take (length (read_buffer s)) inbound, drop (length (read_buffer s)) inbound) \<and>
            deliveries (drop (length (trace s))
                (trace (complete_read sock 0 (take (length (read_buffer s)) inbound) crs s)))
              = [take (length (read_buffer s)) inbound] \<and>
            length (take (length (read_buffer s)) inbound) = length (read_buffer s)) \<and>
         (length inbound < length (read_buffer s) \<longrightarrow>
            async_read_completion (length (read_buffer s)) inbound end_ec = (end_ec, inbound, []) \<and>
            deliveries (drop (length (trace s)) (trace (complete_read sock end_ec inbound crs s))) = [] \<and>
            sock \<notin> set (reads_armed (complete_read sock end_ec inbound crs s))) \<and>
         (0 < length (read_buffer s) \<longrightarrow>
            (\<exists>s' ext. serve_reads sock inbound end_ec crs s = Some s' \<and>
               trace s' = trace s @ ext \<and>
               (\<forall>d \<in> set (deliveries ext). length d = length (read_buffer s)) \<and>
               length (deliveries ext) = length inbound div length (read_buffer s) \<and>
               length (concat (deliveries ext))
                 = length inbound - length inbound mod length (read_buffer s))) \<and>
         length (read_buffer (final (step ev s))) = length (read_buffer s) \<and>
         (\<forall>eng lx port n bec lec s0.
            TcpServer eng lx port n bec lec = Inr s0 \<longrightarrow> length (read_buffer s0) = nat n)"
proof -
  let ?cap = "length (read_buffer s)"
  have full: "?cap \<le> length inbound \<Longrightarrow>
       deliveries (drop (length (trace s))
                (trace (complete_read sock 0 (take ?cap inbound) crs s)))
              = [take ?cap inbound]"
    using assms by (simp add: complete_read_full)
  have short: "deliveries (drop (length (trace s)) (trace (complete_read sock end_ec inbound crs s))) = []"
      "sock \<notin> set (reads_armed (complete_read sock end_ec inbound crs s))"
    using assms by (simp_all add: complete_read_short)
  have loop: "0 < ?cap \<Longrightarrow>
       \<exists>s' ext. serve_reads sock inbound end_ec crs s = Some s' \<and>
               trace s' = trace s @ ext \<and>
               (\<forall>d \<in> set (deliveries ext). length d = ?cap) \<and>
               length (deliveries ext) = length inbound div ?cap \<and>
               length (concat (deliveries ext)) = length inbound - length inbound mod ?cap"
  proof -
    assume pos: "0 < ?cap"
    from serve_reads_result [OF assms(1-4) pos assms(5), of inbound crs]
    obtain s' ext where r: "serve_reads sock inbound end_ec crs s = Some s'"
      "trace s' = trace s @ ext"
      "\<forall>d \<in> set (deliveries ext). length d = ?cap"
      "length (deliveries ext) = length inbound div ?cap"
      "concat (deliveries ext) = take (length inbound div ?cap * ?cap) inbound"
      by blast
    have "length inbound div ?cap * ?cap \<le> length inbound"
      by (rule div_times_less_eq_dividend)
    then have "length (concat (deliveries ext)) = length inbound div ?cap * ?cap"
      unfolding r(5) by simp
    also have "\<dots> = length inbound - length inbound mod ?cap"
      by (simp add: minus_mod_eq_div_mult)
    finally show ?thesis using r(1-4) by blast
  qed
  have ctor: "\<forall>eng lx port n bec lec s0.
            TcpServer eng lx port n bec lec = Inr s0 \<longrightarrow> length (read_buffer s0) = nat n"
    by (auto simp: TcpServer_def split: if_splits)
  show ?thesis
    using full short loop ctor step_keeps_buffer_length [of ev s]
    by (simp add: async_read_completion_def)
qed

theorem delivery_is_full_buffer_witness:
  "alive connected \<and> receive_cb connected \<and> distinct (reads_armed connected) \<and>
   0 \<in> set (reads_armed connected) \<and> failed 2 \<and>
   deliveries (drop (length (trace connected))
      (trace (complete_read 0 0 [1, 2, 3, 4] closes_ok connected))) = [[1, 2, 3, 4]] \<and>
   deliveries (drop (length (trace connected))
      (trace (complete_read 0 2 [5, 6] closes_ok connected))) = [] \<and>
   (\<exists>s' ext. serve_reads 0 [1, 2, 3, 4, 5, 6] 2 closes_ok connected = Some s' \<and>
       trace s' = trace connected @ ext \<and> length (deliveries ext) = 1)"
proof -
  have f: "failed 2" by (simp add: failed_def)
  note t = delivery_is_full_buffer [OF connected_reads(1-4) f]
  have c1: "deliveries (drop (length (trace connected))
      (trace (complete_read 0 0 [1, 2, 3, 4] closes_ok connected))) = [[1, 2, 3, 4]]"
    using t [of "[1, 2, 3, 4]" closes_ok "Destroyed closes_ok"] by (simp add: connected_reads(6))
  have c2: "deliveries (drop (length (trace connected))
      (trace (complete_read 0 2 [5, 6] closes_ok connected))) = []"
    using t [of "[5, 6]" closes_ok "Destroyed closes_ok"] by (simp add: connected_reads(6))
  have d: "length [1, 2, 3, 4, 5, 6 :: byte] div length (read_buffer connected) = 1"
    by (simp add: connected_reads(6))
  from t [of "[1, 2, 3, 4, 5, 6]" closes_ok "Destroyed closes_ok"] connected_reads(5)
  obtain s' ext where "serve_reads 0 [1, 2, 3, 4, 5, 6] 2 closes_ok connected = Some s'"
    "trace s' = trace connected @ ext"
    "length (deliveries ext) = length [1, 2, 3, 4, 5, 6 :: byte] div length (read_buffer connected)"
    by blast
  then have c3: "\<exists>s' ext. serve_reads 0 [1, 2, 3, 4, 5, 6] 2 closes_ok connected = Some s' \<and>
       trace s' = trace connected @ ext \<and> length (deliveries ext) = 1"
    unfolding d by blast
  show ?thesis
    by (intro conjI connected_reads(1-4) f c1 c2 c3)
qed

end

